theory Spec2Isabelle
  imports Complex_Main "HOL-Library.Multiset" "HOL-Library.AList"
begin

section \<open>Data model\<close>

text \<open>
  \<^verbatim>\<open>TextBlock\<close> is a mutable dataclass: \<^verbatim>\<open>text\<close> (field \<open>block_text\<close> here), \<^verbatim>\<open>bbox = (x0, y0, x1, y1)\<close>,
  \<^verbatim>\<open>page_num\<close> and \<^verbatim>\<open>column\<close> (0 = left, 1 = right, -1 = undetermined). The coordinates
  are Python floats; a coordinate is modelled as the real number a finite float denotes
  (infinite and NaN coordinates are outside the model). Comparisons, \<^verbatim>\<open>max\<close> and sorting
  of floats are exact; the rounding operations on them are parameters of the model, see
  \<open>float_ops\<close>. Python integers are unbounded and modelled as \<open>int\<close>.
\<close>

record TextBlock =
  block_text :: string
  bbox :: "real \<times> real \<times> real \<times> real"
  page_num :: int
  column :: int

definition bbox0 :: "TextBlock \<Rightarrow> real" where
  "bbox0 b = fst (bbox b)"

definition bbox1 :: "TextBlock \<Rightarrow> real" where
  "bbox1 b = fst (snd (bbox b))"

definition bbox2 :: "TextBlock \<Rightarrow> real" where
  "bbox2 b = fst (snd (snd (bbox b)))"

text \<open>
  Blocks are objects that \<^verbatim>\<open>detect_columns\<close> mutates in place, so a list of blocks is a
  list of references into a store of block objects.
\<close>

type_synonym ref = nat
type_synonym heap = "ref \<Rightarrow> TextBlock"

datatype error = ZeroDivisionError | IndexError | ValueError | OverflowError

section \<open>Floating-point operations\<close>

text \<open>
  The boundary detector divides and multiplies floats, and the result of such an operation
  is the float nearest to the exact result. Which float that is depends on the format, so
  the detector is modelled for any float arithmetic, given by three operations on finite
  floats:
  \<^item> \<open>fdiv ops x y\<close>, the float \<^verbatim>\<open>x / y\<close> for \<open>y \<noteq> 0\<close>, when that is a finite float (it may be
    zero for a non-zero \<open>x\<close>, by underflow);
  \<^item> \<open>fdiv_inf ops x y\<close>, which says that \<^verbatim>\<open>x / y\<close> is too large for a finite float, so that
    the quotient is an infinity;
  \<^item> \<open>fmul ops x y\<close>, the float \<^verbatim>\<open>x * y\<close>, used for the two products of the detector, an
    integer count times \<^verbatim>\<open>0.3\<close> and a bin index times the bin width, which cannot overflow.
\<close>

record float_ops =
  fdiv :: "real \<Rightarrow> real \<Rightarrow> real"
  fdiv_inf :: "real \<Rightarrow> real \<Rightarrow> bool"
  fmul :: "real \<Rightarrow> real \<Rightarrow> real"

text \<open>The literal \<^verbatim>\<open>0.3\<close> denotes the binary64 number nearest to three tenths.\<close>

definition float_0_3 :: real where
  "float_0_3 = 5404319552844595 / 18014398509481984"

section \<open>Column boundary detection\<close>

text \<open>
  \<^verbatim>\<open>int(x)\<close> on a finite float truncates towards zero; on an infinity it raises
  \<^verbatim>\<open>OverflowError\<close>.
\<close>

definition py_int :: "real \<Rightarrow> int" where
  "py_int x = (if 0 \<le> x then \<lfloor>x\<rfloor> else \<lceil>x\<rceil>)"

text \<open>\<^verbatim>\<open>max(xs)\<close> raises \<^verbatim>\<open>ValueError\<close> on an empty sequence.\<close>

definition py_max :: "'a::linorder list \<Rightarrow> error + 'a" where
  "py_max xs = (case xs of [] \<Rightarrow> Inl ValueError | x # ys \<Rightarrow> Inr (fold max ys x))"

text \<open>
  \<^verbatim>\<open>bins[bin_idx] += 1\<close>: a negative index counts from the end of the list, and an index
  outside \<open>-len .. len - 1\<close> raises \<^verbatim>\<open>IndexError\<close>.
\<close>

definition incr_at :: "int list \<Rightarrow> int \<Rightarrow> error + int list" where
  "incr_at bins i =
     (if 0 \<le> i \<and> i < int (length bins)
      then Inr (bins[nat i := bins ! nat i + 1])
      else if i < 0 \<and> - int (length bins) \<le> i
      then Inr (bins[nat (int (length bins) + i) := bins ! nat (int (length bins) + i) + 1])
      else Inl IndexError)"

text \<open>
  The histogram loop \<^verbatim>\<open>for x in x_positions: bin_idx = min(int(x / bin_size), 19);
  bins[bin_idx] += 1\<close>. Float division by zero raises \<^verbatim>\<open>ZeroDivisionError\<close>, and
  \<^verbatim>\<open>int\<close> of an infinite quotient raises \<^verbatim>\<open>OverflowError\<close>.
\<close>

fun fill_bins :: "float_ops \<Rightarrow> real \<Rightarrow> real list \<Rightarrow> int list \<Rightarrow> error + int list" where
  "fill_bins ops bin_size [] bins = Inr bins"
| "fill_bins ops bin_size (x # xs) bins =
     (if bin_size = 0 then Inl ZeroDivisionError
      else if fdiv_inf ops x bin_size then Inl OverflowError
      else case incr_at bins (min (py_int (fdiv ops x bin_size)) 19) of
             Inl e \<Rightarrow> Inl e
           | Inr bins' \<Rightarrow> fill_bins ops bin_size xs bins')"

text \<open>
  The valley loop \<^verbatim>\<open>for i in range(1, len(bins) - 1)\<close> with its three comparisons of
  integer counts against the float threshold; Python compares an integer with a float by
  value.
\<close>

definition find_valleys :: "int list \<Rightarrow> real \<Rightarrow> nat list" where
  "find_valleys bins threshold =
     filter (\<lambda>i. real_of_int (bins ! i) < threshold
                \<and> real_of_int (bins ! (i - 1)) \<ge> threshold
                \<and> real_of_int (bins ! (i + 1)) \<ge> threshold)
            [1 ..< length bins - 1]"

text \<open>
  \<^verbatim>\<open>_find_column_boundary\<close>. The bin width \<^verbatim>\<open>page_width / 20\<close> is a quotient by 20 and
  cannot overflow.
\<close>

definition find_column_boundary :: "float_ops \<Rightarrow> real list \<Rightarrow> real \<Rightarrow> error + real option" where
  "find_column_boundary ops x_positions page_width =
     (if length x_positions < 4 then Inr None
      else
        let bin_size = fdiv ops page_width 20 in
        case fill_bins ops bin_size x_positions (replicate 20 0) of
          Inl e \<Rightarrow> Inl e
        | Inr bins \<Rightarrow>
            (case py_max bins of
               Inl e \<Rightarrow> Inl e
             | Inr max_bin \<Rightarrow>
                 let threshold = fmul ops (real_of_int max_bin) float_0_3;
                     valleys = find_valleys bins threshold
                 in if valleys \<noteq> []
                    then Inr (Some (fmul ops (real (valleys ! (length valleys div 2))) bin_size))
                    else Inr None))"

section \<open>Column classification\<close>

text \<open>
  The first half of \<^verbatim>\<open>detect_columns\<close>: the page width, the sorted left edges and the
  call of the boundary detector on them.
\<close>

definition page_boundary :: "float_ops \<Rightarrow> heap \<Rightarrow> ref list \<Rightarrow> error + (real \<times> real option)" where
  "page_boundary ops h blocks =
     (case py_max (map (\<lambda>r. bbox2 (h r)) blocks) of
        Inl e \<Rightarrow> Inl e
      | Inr page_width \<Rightarrow>
          (case find_column_boundary ops (sort (map (\<lambda>r. bbox0 (h r)) blocks)) page_width of
             Inl e \<Rightarrow> Inl e
           | Inr boundary \<Rightarrow> Inr (page_width, boundary)))"



section \<open>Reading-order reconstruction\<close>

text \<open>
  Python dictionaries are association lists with distinct keys in insertion order:
  \<^verbatim>\<open>d[k] = v\<close> is \<open>AList.update\<close> and a lookup is \<open>map_of\<close>.

  The grouping loop of \<^verbatim>\<open>reorder_text_blocks\<close>:
  \<^verbatim>\<open>if block.page_num not in pages: pages[block.page_num] = []\<close> followed by
  \<^verbatim>\<open>pages[block.page_num].append(block)\<close>.
\<close>

definition group_step :: "heap \<Rightarrow> ref \<Rightarrow> (int \<times> ref list) list \<Rightarrow> (int \<times> ref list) list" where
  "group_step h block pages =
     (let pages1 = (if map_of pages (page_num (h block)) = None
                    then AList.update (page_num (h block)) [] pages else pages)
      in AList.map_entry (page_num (h block)) (\<lambda>l. l @ [block]) pages1)"

text \<open>
  \<^verbatim>\<open>_interleave_columns\<close>: the two dict comprehensions (a later block with the same
  \<^verbatim>\<open>bbox[1]\<close> replaces the earlier entry), the sorted union of the key sets, and the
  emitting loop.
\<close>

definition y_map :: "heap \<Rightarrow> ref list \<Rightarrow> (real \<times> ref) list" where
  "y_map h blocks = fold (\<lambda>block m. AList.update (bbox1 (h block)) block m) blocks []"

definition emit_at :: "(real \<times> ref) list \<Rightarrow> real \<Rightarrow> ref list" where
  "emit_at m y = (case map_of m y of None \<Rightarrow> [] | Some block \<Rightarrow> [block])"

definition interleave_columns :: "heap \<Rightarrow> ref list \<Rightarrow> ref list \<Rightarrow> ref list" where
  "interleave_columns h left_blocks right_blocks =
     (let left_y_map = y_map h left_blocks;
          right_y_map = y_map h right_blocks;
          all_y_coords = sort (remdups (map fst left_y_map @ map fst right_y_map))
      in concat (map (\<lambda>y. emit_at left_y_map y @ emit_at right_y_map y) all_y_coords))"

text \<open>
  The body of the page loop: the stable sort by \<^verbatim>\<open>bbox[1]\<close>, the two column filters
  and the choice between the interleaving merge and the sorted page itself.
\<close>

definition reorder_page :: "heap \<Rightarrow> ref list \<Rightarrow> ref list" where
  "reorder_page h blocks =
     (let page_blocks = sort_key (\<lambda>b. bbox1 (h b)) blocks;
          left_blocks = filter (\<lambda>b. column (h b) = 0) page_blocks;
          right_blocks = filter (\<lambda>b. column (h b) = 1) page_blocks
      in if left_blocks \<noteq> [] \<and> right_blocks \<noteq> []
         then interleave_columns h left_blocks right_blocks
         else page_blocks)"

text \<open>
  \<^verbatim>\<open>reorder_text_blocks\<close>. The page loop runs over \<^verbatim>\<open>sorted(pages.keys())\<close>, so the
  lookup \<^verbatim>\<open>pages[page_num]\<close> always finds its key.
\<close>

definition reorder_text_blocks :: "heap \<Rightarrow> ref list \<Rightarrow> ref list" where
  "reorder_text_blocks h blocks =
     (if blocks = [] then blocks
      else
        let pages = fold (group_step h) blocks []
        in concat (map (\<lambda>p. case map_of pages p of
                                None \<Rightarrow> []
                              | Some page_blocks \<Rightarrow> reorder_page h page_blocks)
                       (sort (map fst pages))))"

section \<open>Text normalisation\<close>

text \<open>
  A Python \<^verbatim>\<open>str\<close> is a sequence of code points; it is modelled as a \<open>string\<close> in which
  every \<open>char\<close> is one code point below 256. \<^verbatim>\<open>str.strip()\<close> and the regular expression
  class \<^verbatim>\<open>\s\<close> use the same whitespace test, and \<^verbatim>\<open>\d\<close> is the decimal digits, which
  below 256 are \<^verbatim>\<open>0\<close> to \<^verbatim>\<open>9\<close>.
\<close>

abbreviation NL :: char where "NL \<equiv> CHR 0x0A"
abbreviation TAB :: char where "TAB \<equiv> CHR 0x09"

definition isspace :: "char \<Rightarrow> bool" where
  "isspace c = (of_char c \<in> {9, 10, 11, 12, 13, 28, 29, 30, 31, 32, 133, 160 :: nat})"

definition isdigit :: "char \<Rightarrow> bool" where
  "isdigit c = (48 \<le> (of_char c :: nat) \<and> (of_char c :: nat) \<le> 57)"

definition blank :: "char \<Rightarrow> bool" where
  "blank c = (c = CHR '' '' \<or> c = TAB)"

text \<open>
  The regular expressions of \<^verbatim>\<open>clean_extracted_text\<close> are sequences of three kinds of
  item: one character of a class, a greedy \<^verbatim>\<open>*\<close> over a class, and \<^verbatim>\<open>$\<close> (the end of
  the string, or the position before a final newline). \<open>rmatch\<close> is the backtracking
  matcher of \<^verbatim>\<open>re\<close> on such a sequence: anchored at the start of its input, it returns
  the input left after the first match in backtracking order, a \<^verbatim>\<open>*\<close> trying the longest
  repetition first.
\<close>

datatype atom = One "char \<Rightarrow> bool" | Star "char \<Rightarrow> bool" | Eos

fun rmatch :: "atom list \<Rightarrow> string \<Rightarrow> string option" where
  "rmatch [] s = Some s"
| "rmatch (One p # as) [] = None"
| "rmatch (One p # as) (c # cs) = (if p c then rmatch as cs else None)"
| "rmatch (Star p # as) [] = rmatch as []"
| "rmatch (Star p # as) (c # cs) =
     (if p c
      then (case rmatch (Star p # as) cs of Some r \<Rightarrow> Some r | None \<Rightarrow> rmatch as (c # cs))
      else rmatch as (c # cs))"
| "rmatch (Eos # as) s = (if s = [] \<or> s = [NL] then rmatch as s else None)"

text \<open>
  \<^verbatim>\<open>re.match(pattern, line)\<close> used as a truth value; the leading \<^verbatim>\<open>^\<close> of the two
  patterns holds at the start of the line, where \<^verbatim>\<open>re.match\<close> anchors.
\<close>

definition re_match :: "atom list \<Rightarrow> string \<Rightarrow> bool" where
  "re_match pat s = (rmatch pat s \<noteq> None)"

lemma rmatch_length: "rmatch as s = Some r \<Longrightarrow> length r \<le> length s"
  by (induction as s rule: rmatch.induct) (auto split: if_splits option.splits)

text \<open>
  \<^verbatim>\<open>re.sub(pattern, repl, text)\<close> for a pattern that starts with one character of a
  class \<open>p\<close> followed by the items \<open>as\<close>, so that no match is empty: the text is scanned from
  the left, a match is replaced by \<open>repl\<close> and the scan goes on behind it, and a position
  without a match copies its character.
\<close>

function re_sub :: "(char \<Rightarrow> bool) \<Rightarrow> atom list \<Rightarrow> string \<Rightarrow> string \<Rightarrow> string" where
  "re_sub p as repl [] = []"
| "re_sub p as repl (c # cs) =
     (if p c
      then (case rmatch as cs of
              Some r \<Rightarrow> repl @ re_sub p as repl r
            | None \<Rightarrow> c # re_sub p as repl cs)
      else c # re_sub p as repl cs)"
  by pat_completeness auto
termination
  by (relation "measure (\<lambda>(p, as, repl, s). length s)") (auto dest: rmatch_length)

text \<open>\<^verbatim>\<open>text.split('\n')\<close>, \<^verbatim>\<open>line.strip()\<close> and \<^verbatim>\<open>'\n'.join(cleaned_lines)\<close>.\<close>

fun split_on :: "char \<Rightarrow> string \<Rightarrow> string list" where
  "split_on sep [] = [[]]"
| "split_on sep (c # cs) =
     (if c = sep then [] # split_on sep cs
      else (case split_on sep cs of
              [] \<Rightarrow> [[c]]
            | l # ls \<Rightarrow> (c # l) # ls))"

definition strip :: "string \<Rightarrow> string" where
  "strip s = rev (dropWhile isspace (rev (dropWhile isspace s)))"

fun join :: "string \<Rightarrow> string list \<Rightarrow> string" where
  "join sep [] = []"
| "join sep [l] = l"
| "join sep (l # m # ls) = l @ sep @ join sep (m # ls)"

text \<open>
  The body of the line loop after \<^verbatim>\<open>line = line.strip()\<close>: a line is skipped when it is
  empty, when it matches \<^verbatim>\<open>^\d+$\<close> or \<^verbatim>\<open>^\d+\s*$\<close>, or when it has fewer than 3
  characters.
\<close>

definition keep_line :: "string \<Rightarrow> bool" where
  "keep_line line =
     (if line = [] then False
      else if re_match [One isdigit, Star isdigit, Eos] line
            \<or> re_match [One isdigit, Star isdigit, Star isspace, Eos] line then False
      else if length line < 3 then False
      else True)"

definition clean_extracted_text :: "string \<Rightarrow> string" where
  "clean_extracted_text text0 =
     (if text0 = [] then []
      else
        let text1 = re_sub (\<lambda>c. c = NL) [Star isspace, One (\<lambda>c. c = NL), Star isspace, One (\<lambda>c. c = NL)]
                      [NL, NL] text0;
            text2 = re_sub blank [Star blank] '' '' text1;
            text3 = re_sub (\<lambda>c. c = NL) [One (\<lambda>c. c = CHR '' '')] [NL] text2;
            lines = split_on NL text3;
            cleaned_lines = filter keep_line (map strip lines)
        in join [NL] cleaned_lines)"
section \<open>The boundary detector in the words of the specification\<close>

text \<open>
  These definitions follow the specification's description of the detector, not the code:
  the page width is the largest right edge, the bin width a twentieth of it, a left edge
  falls into the bin given by the integer part of its quotient by the bin width, capped at
  19, the histogram counts the fragments per bin, the threshold is the largest count times
  0.3, and a valley is a bin from 1 to 18 below the threshold whose two neighbours are not
  below it. The quotients and products are those of the float arithmetic \<open>ops\<close>.
\<close>

definition spec_page_width :: "heap \<Rightarrow> ref list \<Rightarrow> real" where
  "spec_page_width h blocks = Max ((\<lambda>r. bbox2 (h r)) ` set blocks)"

definition spec_bin_width :: "float_ops \<Rightarrow> heap \<Rightarrow> ref list \<Rightarrow> real" where
  "spec_bin_width ops h blocks = fdiv ops (spec_page_width h blocks) 20"

definition spec_bin :: "float_ops \<Rightarrow> real \<Rightarrow> real \<Rightarrow> int" where
  "spec_bin ops bin_width x = min \<lfloor>fdiv ops x bin_width\<rfloor> 19"

definition spec_histogram :: "float_ops \<Rightarrow> heap \<Rightarrow> ref list \<Rightarrow> int list" where
  "spec_histogram ops h blocks =
     map (\<lambda>i. int (length (filter
                 (\<lambda>r. spec_bin ops (spec_bin_width ops h blocks) (bbox0 (h r)) = int i) blocks)))
         [0 ..< 20]"

definition spec_valleys :: "float_ops \<Rightarrow> int list \<Rightarrow> nat list" where
  "spec_valleys ops hist =
     (let threshold = fmul ops (real_of_int (Max (set hist))) float_0_3
      in filter (\<lambda>i. real_of_int (hist ! i) < threshold
                   \<and> threshold \<le> real_of_int (hist ! (i - 1))
                   \<and> threshold \<le> real_of_int (hist ! (i + 1)))
                [1 ..< 19])"

definition spec_boundary :: "float_ops \<Rightarrow> heap \<Rightarrow> ref list \<Rightarrow> real option" where
  "spec_boundary ops h blocks =
     (let valleys = spec_valleys ops (spec_histogram ops h blocks)
      in if valleys = [] then None
         else Some (fmul ops (real (valleys ! (length valleys div 2))) (spec_bin_width ops h blocks)))"

section \<open>Example pages\<close>

text \<open>
  Concrete stores of blocks on which the theorems below are evaluated, and the arithmetic
  without rounding. On every page below the quotients and products the detector computes
  are binary64 numbers (halves and whole numbers, and twice the constant \<open>float_0_3\<close>), so
  that binary64 arithmetic gives these exact results.
\<close>

definition exact_ops :: float_ops where
  "exact_ops = \<lparr>fdiv = (\<lambda>x y. x / y), fdiv_inf = (\<lambda>x y. False), fmul = (\<lambda>x y. x * y)\<rparr>"

definition block_at :: "real \<Rightarrow> real \<Rightarrow> real \<Rightarrow> int \<Rightarrow> int \<Rightarrow> TextBlock" where
  "block_at x0 y0 x1 pg col =
     \<lparr>block_text = ''text'', bbox = (x0, y0, x1, y0 + 10), page_num = pg, column = col\<rparr>"

definition heap_of :: "TextBlock list \<Rightarrow> heap" where
  "heap_of bs = (\<lambda>r. if r < length bs then bs ! r else block_at 0 0 1 0 0)"

definition overhang_page :: heap where
  "overhang_page = heap_of [block_at (-25) 0 20 0 0, block_at 5 20 20 0 0,
                            block_at 5 40 20 0 0, block_at 5 60 20 0 0]"

definition gap_page :: heap where
  "gap_page = heap_of [block_at 5 0 200 0 0, block_at 5 20 200 0 0,
                       block_at 25 0 200 0 0, block_at 25 20 200 0 0]"



definition dense_page :: heap where
  "dense_page = heap_of [block_at 16 0 160 0 0, block_at 20 20 160 0 0,
                         block_at 24 40 160 0 0, block_at 28 60 160 0 0]"

text \<open>
  A page of width 44 with left edges 29, 29, 33, 33, and binary64 arithmetic on the
  operands that occur on it: the bin width \<^verbatim>\<open>44 / 20\<close> is the binary64 number nearest to
  2.2, and the quotients of 29 and of 33 by it are the binary64 numbers printed as
  \<^verbatim>\<open>13.18181818181818\<close> and \<^verbatim>\<open>14.999999999999998\<close>, so that 33 falls into bin 14, not 15.
\<close>

definition narrow_page :: heap where
  "narrow_page = heap_of [block_at 29 0 44 0 0, block_at 29 20 44 0 0,
                          block_at 33 0 44 0 0, block_at 33 20 44 0 0]"

definition narrow_page_ops :: float_ops where
  "narrow_page_ops =
     \<lparr>fdiv = (\<lambda>x y.
               if x = 44 \<and> y = 20 then 2476979795053773 / 1125899906842624
               else if x = 29 \<and> y = 2476979795053773 / 1125899906842624
               then 1855175982865687 / 140737488355328
               else if x = 33 \<and> y = 2476979795053773 / 1125899906842624
               then 8444249301319679 / 562949953421312
               else x / y),
      fdiv_inf = (\<lambda>x y. False),
      fmul = (\<lambda>x y. x * y)\<rparr>"

section \<open>The reconstruction in the words of the specification\<close>

text \<open>
  A page's fragments, their order by top edge and their split into the two columns; the
  fragment a side contributes at a row (the last of the side's fragments with that top
  edge); the merge that visits the distinct top edges of both sides in ascending order
  and emits the left fragment of the row, then the right one; and the fragments of a side
  that are not followed by another fragment of the side with the same top edge.
\<close>

definition spec_last_at :: "heap \<Rightarrow> real \<Rightarrow> ref list \<Rightarrow> ref list" where
  "spec_last_at h y side =
     (if filter (\<lambda>b. bbox1 (h b) = y) side = [] then []
      else [last (filter (\<lambda>b. bbox1 (h b) = y) side)])"

definition spec_interleave :: "heap \<Rightarrow> ref list \<Rightarrow> ref list \<Rightarrow> ref list" where
  "spec_interleave h left right =
     concat (map (\<lambda>y. spec_last_at h y left @ spec_last_at h y right)
                 (sorted_list_of_set ((\<lambda>b. bbox1 (h b)) ` (set left \<union> set right))))"

definition page_fragments :: "heap \<Rightarrow> int \<Rightarrow> ref list \<Rightarrow> ref list" where
  "page_fragments h p blocks = filter (\<lambda>b. page_num (h b) = p) blocks"

definition y_sorted :: "heap \<Rightarrow> ref list \<Rightarrow> ref list" where
  "y_sorted h blocks = sort_key (\<lambda>b. bbox1 (h b)) blocks"

definition side :: "heap \<Rightarrow> int \<Rightarrow> ref list \<Rightarrow> ref list" where
  "side h c blocks = filter (\<lambda>b. column (h b) = c) blocks"

fun survivors :: "heap \<Rightarrow> ref list \<Rightarrow> ref list" where
  "survivors h [] = []"
| "survivors h (b # bs) =
     (if bbox1 (h b) \<in> (\<lambda>b'. bbox1 (h b')) ` set bs then survivors h bs else b # survivors h bs)"

text \<open>
  A document with two fragments on page 0 and four on page 1, and a page with two left
  fragments that share a top edge.
\<close>

definition mixed_doc :: heap where
  "mixed_doc = heap_of [block_at 20 10 200 1 0, block_at 300 5 500 1 1, block_at 20 5 200 0 0,
                        block_at 20 5 200 1 0, block_at 40 10 200 1 0, block_at 20 1 200 0 0]"

definition tie_page :: heap where
  "tie_page = heap_of [block_at 20 50 200 0 0, block_at 120 50 200 0 0]"

section \<open>Invariants of normalised text\<close>

text \<open>
  Three predicates used to describe the output of \<^verbatim>\<open>clean_extracted_text\<close>: a text
  without tab characters in which no space is followed by a space; a text in which every
  newline is followed by a character that is not whitespace; and a line as the line loop
  keeps it, without a newline, without whitespace at either end.
\<close>

fun tidy :: "string \<Rightarrow> bool" where
  "tidy [] = True"
| "tidy (c # cs) = (c \<noteq> TAB \<and> \<not> (c = CHR '' '' \<and> cs \<noteq> [] \<and> blank (hd cs)) \<and> tidy cs)"

fun newlines_lead_text :: "string \<Rightarrow> bool" where
  "newlines_lead_text [] = True"
| "newlines_lead_text (c # cs) =
     ((c \<noteq> NL \<or> (cs \<noteq> [] \<and> \<not> isspace (hd cs))) \<and> newlines_lead_text cs)"

definition clean_line :: "string \<Rightarrow> bool" where
  "clean_line l = (keep_line l \<and> NL \<notin> set l \<and> \<not> isspace (hd l) \<and> \<not> isspace (last l) \<and> tidy l)"


section \<open>Properties of the boundary detector and the classifier\<close>


lemma py_max_Max: "xs \<noteq> [] \<Longrightarrow> py_max xs = Inr (Max (set xs))"
  by (cases xs) (simp_all add: py_max_def Max.set_eq_fold [symmetric])

lemma incr_at_in_range:
  "0 \<le> i \<Longrightarrow> i < int (length bins) \<Longrightarrow> incr_at bins i = Inr (bins[nat i := bins ! nat i + 1])"
  by (simp add: incr_at_def)

lemma incr_at_length: "incr_at bins i = Inr bins' \<Longrightarrow> length bins' = length bins"
  by (auto simp: incr_at_def split: if_splits)

lemma fill_bins_length: "fill_bins ops bs xs bins = Inr bins' \<Longrightarrow> length bins' = length bins"
proof (induction xs arbitrary: bins)
  case Nil
  then show ?case by simp
next
  case (Cons x xs)
  then show ?case
    by (auto split: if_splits sum.splits dest: incr_at_length)
qed

lemma fill_bins_count:
  assumes "bw \<noteq> 0" "\<forall>x\<in>set xs. \<not> fdiv_inf ops x bw \<and> 0 \<le> fdiv ops x bw" "length bins = 20"
  shows "fill_bins ops bw xs bins =
           Inr (map (\<lambda>i. bins ! i + int (length (filter (\<lambda>x. spec_bin ops bw x = int i) xs))) [0..<20])"
  using assms(2,3)
proof (induction xs arbitrary: bins)
  case Nil
  then show ?case by (simp add: map_nth [symmetric] list_eq_iff_nth_eq)
next
  case (Cons x xs)
  let ?j = "spec_bin ops bw x"
  have fin: "\<not> fdiv_inf ops x bw" using Cons.prems(1) by simp
  have q: "0 \<le> fdiv ops x bw" using Cons.prems(1) by simp
  have pyi: "min (py_int (fdiv ops x bw)) 19 = ?j"
    using q by (simp add: py_int_def spec_bin_def)
  have j0: "0 \<le> ?j" using q by (simp add: spec_bin_def)
  have j20: "?j < 20" by (simp add: spec_bin_def)
  have step: "incr_at bins ?j = Inr (bins[nat ?j := bins ! nat ?j + 1])"
    using j0 j20 Cons.prems(2) by (simp add: incr_at_in_range)
  have len: "length (bins[nat ?j := bins ! nat ?j + 1]) = 20" using Cons.prems(2) by simp
  have rest: "\<forall>x\<in>set xs. \<not> fdiv_inf ops x bw \<and> 0 \<le> fdiv ops x bw" using Cons.prems(1) by simp
  have "fill_bins ops bw (x # xs) bins = fill_bins ops bw xs (bins[nat ?j := bins ! nat ?j + 1])"
    using assms(1) fin pyi step by simp
  also have "\<dots> = Inr (map (\<lambda>i. (bins[nat ?j := bins ! nat ?j + 1]) ! i
                 + int (length (filter (\<lambda>x. spec_bin ops bw x = int i) xs))) [0..<20])"
    by (rule Cons.IH [OF rest len])
  also have "\<dots> = Inr (map (\<lambda>i. bins ! i
                 + int (length (filter (\<lambda>x. spec_bin ops bw x = int i) (x # xs)))) [0..<20])"
  proof -
    have "(bins[nat ?j := bins ! nat ?j + 1]) ! i + int (length (filter (\<lambda>x. spec_bin ops bw x = int i) xs))
        = bins ! i + int (length (filter (\<lambda>x. spec_bin ops bw x = int i) (x # xs)))" if "i < 20" for i
    proof (cases "i = nat ?j")
      case True
      then show ?thesis using j0 Cons.prems(2) that by simp
    next
      case False
      then have "?j \<noteq> int i" using j0 by auto
      then show ?thesis using False by simp
    qed
    then show ?thesis by simp
  qed
  finally show ?case .
qed

lemma length_filter_sort:
  "length (filter P (sort xs)) = length (filter P xs)"
proof -
  have "mset (filter P (sort xs)) = mset (filter P xs)" by simp
  then show ?thesis by (metis size_mset)
qed

lemma page_width_Max:
  "blocks \<noteq> [] \<Longrightarrow> py_max (map (\<lambda>r. bbox2 (h r)) blocks) = Inr (spec_page_width h blocks)"
  by (simp add: py_max_Max spec_page_width_def)

lemma page_boundary_eq:
  "blocks \<noteq> [] \<Longrightarrow> page_boundary ops h blocks =
     (case find_column_boundary ops (sort (map (\<lambda>r. bbox0 (h r)) blocks)) (spec_page_width h blocks) of
        Inl e \<Rightarrow> Inl e | Inr boundary \<Rightarrow> Inr (spec_page_width h blocks, boundary))"
  by (simp add: page_boundary_def page_width_Max)

lemma fill_bins_histogram:
  assumes "spec_bin_width ops h blocks \<noteq> 0"
    and "\<forall>r\<in>set blocks. \<not> fdiv_inf ops (bbox0 (h r)) (spec_bin_width ops h blocks)
                         \<and> 0 \<le> fdiv ops (bbox0 (h r)) (spec_bin_width ops h blocks)"
  shows "fill_bins ops (spec_bin_width ops h blocks) (sort (map (\<lambda>r. bbox0 (h r)) blocks))
           (replicate 20 0) = Inr (spec_histogram ops h blocks)"
proof -
  let ?bw = "spec_bin_width ops h blocks"
  let ?xs = "sort (map (\<lambda>r. bbox0 (h r)) blocks)"
  have ok: "\<forall>x\<in>set ?xs. \<not> fdiv_inf ops x ?bw \<and> 0 \<le> fdiv ops x ?bw" using assms(2) by auto
  have cnt: "length (filter (\<lambda>x. spec_bin ops ?bw x = int i) ?xs)
           = length (filter (\<lambda>r. spec_bin ops ?bw (bbox0 (h r)) = int i) blocks)" for i
  proof -
    have "length (filter (\<lambda>x. spec_bin ops ?bw x = int i) ?xs)
        = length (filter (\<lambda>x. spec_bin ops ?bw x = int i) (map (\<lambda>r. bbox0 (h r)) blocks))"
      by (rule length_filter_sort)
    also have "\<dots> = length (filter (\<lambda>r. spec_bin ops ?bw (bbox0 (h r)) = int i) blocks)"
      by (simp add: filter_map o_def)
    finally show ?thesis .
  qed
  have "fill_bins ops ?bw ?xs (replicate 20 0)
      = Inr (map (\<lambda>i. replicate 20 0 ! i + int (length (filter (\<lambda>x. spec_bin ops ?bw x = int i) ?xs))) [0..<20])"
    by (rule fill_bins_count [OF assms(1) ok]) simp
  also have "\<dots> = Inr (spec_histogram ops h blocks)"
    by (simp add: spec_histogram_def cnt)
  finally show ?thesis .
qed

lemma find_valleys_spec:
  "length hist = 20 \<Longrightarrow>
   find_valleys hist (fmul ops (real_of_int (Max (set hist))) float_0_3) = spec_valleys ops hist"
  by (simp add: find_valleys_def spec_valleys_def Let_def)

lemma find_column_boundary_bins:
  assumes "4 \<le> length xs" "fill_bins ops (fdiv ops pw 20) xs (replicate 20 0) = Inr bins"
  shows "find_column_boundary ops xs pw =
           (let valleys = spec_valleys ops bins
            in if valleys = [] then Inr None
               else Inr (Some (fmul ops (real (valleys ! (length valleys div 2))) (fdiv ops pw 20))))"
proof -
  have len: "length bins = 20" using fill_bins_length [OF assms(2)] by simp
  then have ne: "bins \<noteq> []" by auto
  have mx: "py_max bins = Inr (Max (set bins))" by (rule py_max_Max [OF ne])
  have "\<not> length xs < 4" using assms(1) by simp
  then show ?thesis
    by (simp add: find_column_boundary_def assms(2) mx find_valleys_spec [OF len] Let_def)
qed

lemma page_boundary_regular:
  assumes "4 \<le> length blocks"
    and "spec_bin_width ops h blocks \<noteq> 0"
    and "\<forall>r\<in>set blocks. \<not> fdiv_inf ops (bbox0 (h r)) (spec_bin_width ops h blocks)
                         \<and> 0 \<le> fdiv ops (bbox0 (h r)) (spec_bin_width ops h blocks)"
  shows "fill_bins ops (spec_bin_width ops h blocks) (sort (map (\<lambda>r. bbox0 (h r)) blocks))
             (replicate 20 0) = Inr (spec_histogram ops h blocks)
       \<and> page_boundary ops h blocks = Inr (spec_page_width h blocks, spec_boundary ops h blocks)"
proof -
  have ne: "blocks \<noteq> []" using assms(1) by auto
  have hist: "fill_bins ops (spec_bin_width ops h blocks) (sort (map (\<lambda>r. bbox0 (h r)) blocks))
             (replicate 20 0) = Inr (spec_histogram ops h blocks)"
    by (rule fill_bins_histogram [OF assms(2,3)])
  have four: "4 \<le> length (sort (map (\<lambda>r. bbox0 (h r)) blocks))" using assms(1) by simp
  have "find_column_boundary ops (sort (map (\<lambda>r. bbox0 (h r)) blocks)) (spec_page_width h blocks)
          = Inr (spec_boundary ops h blocks)"
    using find_column_boundary_bins [OF four hist [unfolded spec_bin_width_def]]
    by (simp add: spec_boundary_def spec_bin_width_def Let_def)
  then show ?thesis using hist by (simp add: page_boundary_eq [OF ne])
qed



text \<open>
  The detector raises on a page with a fragment that starts more than one page width to the
  left of the origin: the fragment's bin index is below \<open>-20\<close>, and the histogram update
  is out of range.
\<close>

theorem boundary_raises_counterexample:
  "4 \<le> length [0, 1, 2, 3 :: ref]
   \<and> page_boundary exact_ops overhang_page [0, 1, 2, 3] = Inl IndexError
   \<and> page_boundary exact_ops overhang_page [0, 1, 2, 3]
       \<noteq> Inr (spec_page_width overhang_page [0, 1, 2, 3],
               spec_boundary exact_ops overhang_page [0, 1, 2, 3])"
  by code_simp

text \<open>
  Claim C2, amended. For a page with at least 4 fragments whose bin width, the float
  quotient of the page width (the largest \<open>x1\<close>) by 20, is not zero, and on which the float
  quotient of every \<open>x0\<close> by the bin width is finite and not negative: the histogram the
  code builds is the count of fragments per bin, where a fragment's bin is the integer part
  of that quotient capped at 19; and the detector returns the page width together with the
  middle valley \<open>valleys[len(valleys) // 2]\<close> times the bin width, the valleys being the
  bins 1 to 18 below the largest count times 0.3 whose neighbours are not below it (and
  no boundary when there is no valley). This holds for every float arithmetic.
\<close>

theorem boundary_is_middle_valley:
  assumes "4 \<le> length blocks"
    and "spec_bin_width ops h blocks \<noteq> 0"
    and "\<forall>r\<in>set blocks. \<not> fdiv_inf ops (bbox0 (h r)) (spec_bin_width ops h blocks)
                         \<and> 0 \<le> fdiv ops (bbox0 (h r)) (spec_bin_width ops h blocks)"
  shows "fill_bins ops (spec_bin_width ops h blocks) (sort (map (\<lambda>r. bbox0 (h r)) blocks))
             (replicate 20 0) = Inr (spec_histogram ops h blocks)
       \<and> page_boundary ops h blocks = Inr (spec_page_width h blocks, spec_boundary ops h blocks)"
  using assms by (rule page_boundary_regular)

theorem boundary_is_middle_valley_witness:
  "4 \<le> length [0, 1, 2, 3 :: ref]
   \<and> spec_bin_width exact_ops gap_page [0, 1, 2, 3] = 10
   \<and> spec_histogram exact_ops gap_page [0, 1, 2, 3]
        = [2, 0, 2, 0, 0, 0, 0, 0, 0, 0, 0, 0, 0, 0, 0, 0, 0, 0, 0, 0]
   \<and> page_boundary exact_ops gap_page [0, 1, 2, 3] = Inr (200, Some 10)
   \<and> spec_histogram narrow_page_ops narrow_page [0, 1, 2, 3]
        = [0, 0, 0, 0, 0, 0, 0, 0, 0, 0, 0, 0, 0, 2, 2, 0, 0, 0, 0, 0]
   \<and> page_boundary narrow_page_ops narrow_page [0, 1, 2, 3] = Inr (44, None)"
proof -
  have a: "4 \<le> length [0, 1, 2, 3 :: ref]" by simp
  have w: "spec_bin_width exact_ops gap_page [0, 1, 2, 3] = 10" by code_simp
  have b: "spec_bin_width exact_ops gap_page [0, 1, 2, 3] \<noteq> 0" by code_simp
  have c: "\<forall>r\<in>set [0, 1, 2, 3].
             \<not> fdiv_inf exact_ops (bbox0 (gap_page r)) (spec_bin_width exact_ops gap_page [0, 1, 2, 3])
             \<and> 0 \<le> fdiv exact_ops (bbox0 (gap_page r)) (spec_bin_width exact_ops gap_page [0, 1, 2, 3])"
    by code_simp
  have d: "spec_page_width gap_page [0, 1, 2, 3] = 200" by code_simp
  have e: "spec_boundary exact_ops gap_page [0, 1, 2, 3] = Some 10" by code_simp
  have f: "spec_histogram exact_ops gap_page [0, 1, 2, 3]
             = [2, 0, 2, 0, 0, 0, 0, 0, 0, 0, 0, 0, 0, 0, 0, 0, 0, 0, 0, 0]"
    by code_simp
  have g: "page_boundary exact_ops gap_page [0, 1, 2, 3] = Inr (200, Some 10)"
    using boundary_is_middle_valley [OF a b c] by (simp only: d e)
  have b': "spec_bin_width narrow_page_ops narrow_page [0, 1, 2, 3] \<noteq> 0" by code_simp
  have c': "\<forall>r\<in>set [0, 1, 2, 3].
             \<not> fdiv_inf narrow_page_ops (bbox0 (narrow_page r))
                  (spec_bin_width narrow_page_ops narrow_page [0, 1, 2, 3])
             \<and> 0 \<le> fdiv narrow_page_ops (bbox0 (narrow_page r))
                  (spec_bin_width narrow_page_ops narrow_page [0, 1, 2, 3])"
    by code_simp
  have d': "spec_page_width narrow_page [0, 1, 2, 3] = 44" by code_simp
  have e': "spec_boundary narrow_page_ops narrow_page [0, 1, 2, 3] = None" by code_simp
  have f': "spec_histogram narrow_page_ops narrow_page [0, 1, 2, 3]
             = [0, 0, 0, 0, 0, 0, 0, 0, 0, 0, 0, 0, 0, 2, 2, 0, 0, 0, 0, 0]"
    by code_simp
  have g': "page_boundary narrow_page_ops narrow_page [0, 1, 2, 3] = Inr (44, None)"
    using boundary_is_middle_valley [OF a b' c'] by (simp only: d' e')
  show ?thesis by (intro conjI a w f g f' g')
qed



text \<open>
  Four fragments with only two distinct left edges, 5 and 25, on a page of width 200: the
  bins 0 and 2 hold two fragments each, bin 1 is a valley, and the detector returns the
  boundary 10 although fewer than 4 distinct left edges exist.
\<close>

theorem few_distinct_positions_counterexample:
  "card (set [5, 5, 25, 25 :: real]) < 4
   \<and> find_column_boundary exact_ops [5, 5, 25, 25] 200 = Inr (Some 10)
   \<and> page_boundary exact_ops gap_page [0, 1, 2, 3] = Inr (200, Some 10)
   \<and> card ((\<lambda>r. bbox0 (gap_page r)) ` set [0, 1, 2, 3]) < 4"
  by code_simp

text \<open>
  Claim C4, amended. The detector returns "no boundary" whenever the page has fewer than 4
  left-edge positions counted with repetition (fewer than 4 fragments); and also whenever
  the histogram it has built contains no valley, a valley being a bin from 1 to 18 below
  the largest count times 0.3 whose two neighbours are not below it. On a page with at
  least 4 fragments whose quotients by the non-zero bin width are finite and not negative
  the histogram is the count of fragments per bin, and the detector reports no boundary for
  the page when that histogram has no valley.
\<close>

theorem no_boundary_cases:
  "(length x_positions < 4 \<longrightarrow> find_column_boundary ops x_positions page_width = Inr None)
   \<and> (\<forall>bins. fill_bins ops (fdiv ops page_width 20) x_positions (replicate 20 0) = Inr bins
          \<longrightarrow> spec_valleys ops bins = []
          \<longrightarrow> find_column_boundary ops x_positions page_width = Inr None)
   \<and> (4 \<le> length blocks \<and> spec_bin_width ops h blocks \<noteq> 0
        \<and> (\<forall>r\<in>set blocks. \<not> fdiv_inf ops (bbox0 (h r)) (spec_bin_width ops h blocks)
                             \<and> 0 \<le> fdiv ops (bbox0 (h r)) (spec_bin_width ops h blocks))
        \<and> spec_valleys ops (spec_histogram ops h blocks) = []
        \<longrightarrow> page_boundary ops h blocks = Inr (spec_page_width h blocks, None))"
proof (intro conjI allI impI)
  assume "length x_positions < 4"
  then show "find_column_boundary ops x_positions page_width = Inr None"
    by (simp add: find_column_boundary_def)
next
  fix bins
  assume fb: "fill_bins ops (fdiv ops page_width 20) x_positions (replicate 20 0) = Inr bins"
    and nv: "spec_valleys ops bins = []"
  show "find_column_boundary ops x_positions page_width = Inr None"
  proof (cases "length x_positions < 4")
    case True
    then show ?thesis by (simp add: find_column_boundary_def)
  next
    case False
    then have "4 \<le> length x_positions" by simp
    from find_column_boundary_bins [OF this fb] show ?thesis by (simp add: nv)
  qed
next
  assume a: "4 \<le> length blocks \<and> spec_bin_width ops h blocks \<noteq> 0
        \<and> (\<forall>r\<in>set blocks. \<not> fdiv_inf ops (bbox0 (h r)) (spec_bin_width ops h blocks)
                             \<and> 0 \<le> fdiv ops (bbox0 (h r)) (spec_bin_width ops h blocks))
        \<and> spec_valleys ops (spec_histogram ops h blocks) = []"
  then have "page_boundary ops h blocks = Inr (spec_page_width h blocks, spec_boundary ops h blocks)"
    using page_boundary_regular [of blocks ops h] by blast
  then show "page_boundary ops h blocks = Inr (spec_page_width h blocks, None)"
    using a by (simp add: spec_boundary_def)
qed

theorem no_boundary_cases_witness:
  "length [10, 40, 15 :: real] < 4
   \<and> find_column_boundary exact_ops [10, 40, 15] 80 = Inr None
   \<and> fill_bins exact_ops (fdiv exact_ops 160 20) [16, 20, 24, 28] (replicate 20 0)
        = Inr [0, 0, 2, 2, 0, 0, 0, 0, 0, 0, 0, 0, 0, 0, 0, 0, 0, 0, 0, 0]
   \<and> spec_valleys exact_ops [0, 0, 2, 2, 0, 0, 0, 0, 0, 0, 0, 0, 0, 0, 0, 0, 0, 0, 0, 0] = []
   \<and> find_column_boundary exact_ops [16, 20, 24, 28] 160 = Inr None
   \<and> spec_histogram exact_ops dense_page [0, 1, 2, 3]
        = [0, 0, 2, 2, 0, 0, 0, 0, 0, 0, 0, 0, 0, 0, 0, 0, 0, 0, 0, 0]
   \<and> page_boundary exact_ops dense_page [0, 1, 2, 3] = Inr (160, None)"
proof -
  have a: "length [10, 40, 15 :: real] < 4" by simp
  have b: "fill_bins exact_ops (fdiv exact_ops 160 20) [16, 20, 24, 28] (replicate 20 0)
        = Inr [0, 0, 2, 2, 0, 0, 0, 0, 0, 0, 0, 0, 0, 0, 0, 0, 0, 0, 0, 0]" by code_simp
  have c: "spec_valleys exact_ops [0, 0, 2, 2, 0, 0, 0, 0, 0, 0, 0, 0, 0, 0, 0, 0, 0, 0, 0, 0] = []"
    by code_simp
  have d: "find_column_boundary exact_ops [10, 40, 15] 80 = Inr None"
    by (rule no_boundary_cases [of "[10, 40, 15]" exact_ops 80, THEN conjunct1, rule_format, OF a])
  have e: "find_column_boundary exact_ops [16, 20, 24, 28] 160 = Inr None"
    by (rule no_boundary_cases [of _ exact_ops 160 "[16, 20, 24, 28]",
          THEN conjunct2, THEN conjunct1, rule_format, OF b c])
  have f: "spec_histogram exact_ops dense_page [0, 1, 2, 3]
        = [0, 0, 2, 2, 0, 0, 0, 0, 0, 0, 0, 0, 0, 0, 0, 0, 0, 0, 0, 0]" by code_simp
  have g: "4 \<le> length [0, 1, 2, 3 :: ref] \<and> spec_bin_width exact_ops dense_page [0, 1, 2, 3] \<noteq> 0
        \<and> (\<forall>r\<in>set [0, 1, 2, 3].
               \<not> fdiv_inf exact_ops (bbox0 (dense_page r)) (spec_bin_width exact_ops dense_page [0, 1, 2, 3])
               \<and> 0 \<le> fdiv exact_ops (bbox0 (dense_page r)) (spec_bin_width exact_ops dense_page [0, 1, 2, 3]))
        \<and> spec_valleys exact_ops (spec_histogram exact_ops dense_page [0, 1, 2, 3]) = []"
    by code_simp
  have w: "spec_page_width dense_page [0, 1, 2, 3] = 160" by code_simp
  have p: "page_boundary exact_ops dense_page [0, 1, 2, 3] = Inr (160, None)"
    using no_boundary_cases [of _ exact_ops _ "[0, 1, 2, 3]" dense_page,
            THEN conjunct2, THEN conjunct2, rule_format, OF g]
    by (simp only: w)
  show ?thesis by (intro conjI a b c d e f p)
qed




section \<open>Properties of the reading-order reconstruction\<close>

lemma map_of_fold_update:
  "map_of (fold (\<lambda>b m. AList.update (k b) b m) bs m0) y =
     (if filter (\<lambda>b. k b = y) bs = [] then map_of m0 y
      else Some (last (filter (\<lambda>b. k b = y) bs)))"
proof (induction bs arbitrary: m0)
  case Nil
  then show ?case by simp
next
  case (Cons b bs)
  show ?case by (simp add: Cons.IH update_conv')
qed

lemma keys_fold_update:
  "fst ` set (fold (\<lambda>b m. AList.update (k b) b m) bs m0) = k ` set bs \<union> fst ` set m0"
proof (induction bs arbitrary: m0)
  case Nil
  then show ?case by simp
next
  case (Cons b bs)
  show ?case by (auto simp: Cons.IH dom_update)
qed

lemma emit_at_y_map: "emit_at (y_map h bs) y = spec_last_at h y bs"
  by (simp add: emit_at_def y_map_def spec_last_at_def map_of_fold_update)

lemma keys_y_map: "set (map fst (y_map h bs)) = (\<lambda>b. bbox1 (h b)) ` set bs"
  by (simp add: y_map_def keys_fold_update)

lemma interleave_columns_spec:
  "interleave_columns h left right = spec_interleave h left right"
proof -
  have "sort (remdups (map fst (y_map h left) @ map fst (y_map h right)))
      = sorted_list_of_set (set (map fst (y_map h left) @ map fst (y_map h right)))"
    by (simp only: sorted_list_of_set_sort_remdups)
  also have "set (map fst (y_map h left) @ map fst (y_map h right))
      = (\<lambda>b. bbox1 (h b)) ` (set left \<union> set right)"
    using keys_y_map [of h left] keys_y_map [of h right] by (simp add: image_Un)
  finally show ?thesis
    by (simp add: interleave_columns_def spec_interleave_def Let_def emit_at_y_map)
qed

lemma set_spec_last_at: "set (spec_last_at h y bs) \<subseteq> set bs"
proof (cases "filter (\<lambda>b. bbox1 (h b) = y) bs = []")
  case True
  then show ?thesis by (simp add: spec_last_at_def)
next
  case False
  then have "last (filter (\<lambda>b. bbox1 (h b) = y) bs) \<in> set (filter (\<lambda>b. bbox1 (h b) = y) bs)"
    by (rule last_in_set)
  then show ?thesis using False by (simp add: spec_last_at_def)
qed

lemma set_interleave_columns:
  "set (interleave_columns h left right) \<subseteq> set left \<union> set right"
  using set_spec_last_at [of h _ left] set_spec_last_at [of h _ right]
  by (auto simp: interleave_columns_spec spec_interleave_def)

lemma set_reorder_page: "set (reorder_page h bs) \<subseteq> set bs"
  using set_interleave_columns
    [of h "filter (\<lambda>b. column (h b) = 0) (sort_key (\<lambda>b. bbox1 (h b)) bs)"
          "filter (\<lambda>b. column (h b) = 1) (sort_key (\<lambda>b. bbox1 (h b)) bs)"]
  by (auto simp: reorder_page_def Let_def)

lemma map_of_group_step:
  "map_of (group_step h b ps) =
     (map_of ps)(page_num (h b) \<mapsto> (case map_of ps (page_num (h b)) of None \<Rightarrow> [b] | Some l \<Rightarrow> l @ [b]))"
  by (auto simp: group_step_def Let_def map_of_map_entry update_conv' fun_eq_iff split: option.splits)

lemma keys_group_step:
  "fst ` set (group_step h b ps) = insert (page_num (h b)) (fst ` set ps)"
  by (auto simp: group_step_def Let_def dom_map_entry dom_update map_of_eq_None_iff)

lemma distinct_group_step:
  "distinct (map fst ps) \<Longrightarrow> distinct (map fst (group_step h b ps))"
  by (simp add: group_step_def Let_def distinct_map_entry distinct_update)

lemma fold_group_step:
  assumes "distinct (map fst ps)"
  shows "distinct (map fst (fold (group_step h) bs ps))
       \<and> fst ` set (fold (group_step h) bs ps) = (\<lambda>b. page_num (h b)) ` set bs \<union> fst ` set ps
       \<and> (\<forall>p. map_of (fold (group_step h) bs ps) p =
              (case map_of ps p of
                 None \<Rightarrow> if filter (\<lambda>b. page_num (h b) = p) bs = [] then None
                         else Some (filter (\<lambda>b. page_num (h b) = p) bs)
               | Some l \<Rightarrow> Some (l @ filter (\<lambda>b. page_num (h b) = p) bs)))"
  using assms
proof (induction bs arbitrary: ps)
  case Nil
  then show ?case by (auto split: option.splits)
next
  case (Cons b bs)
  have d: "distinct (map fst (group_step h b ps))" using Cons.prems by (rule distinct_group_step)
  note IH = Cons.IH [OF d]
  show ?case
    using IH by (auto simp: keys_group_step map_of_group_step split: option.splits)
qed

lemma sort_distinct_keys:
  "distinct xs \<Longrightarrow> sort xs = sorted_list_of_set (set xs)"
  by (simp add: sorted_list_of_set_sort_remdups distinct_remdups_id)

lemma reorder_text_blocks_pages:
  "reorder_text_blocks h blocks =
     concat (map (\<lambda>p. reorder_page h (filter (\<lambda>b. page_num (h b) = p) blocks))
                 (sorted_list_of_set ((\<lambda>b. page_num (h b)) ` set blocks)))"
proof (cases "blocks = []")
  case True
  then show ?thesis by (simp add: reorder_text_blocks_def)
next
  case False
  let ?pages = "fold (group_step h) blocks []"
  let ?pg = "\<lambda>b. page_num (h b)"
  have g: "distinct (map fst ?pages)"
      "fst ` set ?pages = ?pg ` set blocks"
      "\<And>p. map_of ?pages p = (if filter (\<lambda>b. ?pg b = p) blocks = [] then None
                               else Some (filter (\<lambda>b. ?pg b = p) blocks))"
    using fold_group_step [of "[]" h blocks] by simp_all
  have keys: "sort (map fst ?pages) = sorted_list_of_set (?pg ` set blocks)"
    using sort_distinct_keys [OF g(1)] g(2) by simp
  have body: "(case map_of ?pages p of None \<Rightarrow> [] | Some page_blocks \<Rightarrow> reorder_page h page_blocks)
            = reorder_page h (filter (\<lambda>b. ?pg b = p) blocks)"
    if "p \<in> ?pg ` set blocks" for p
  proof -
    from that have "filter (\<lambda>b. ?pg b = p) blocks \<noteq> []"
      by (auto simp: filter_empty_conv)
    then show ?thesis by (simp add: g(3))
  qed
  have "reorder_text_blocks h blocks =
          concat (map (\<lambda>p. case map_of ?pages p of None \<Rightarrow> []
                             | Some page_blocks \<Rightarrow> reorder_page h page_blocks)
                      (sorted_list_of_set (?pg ` set blocks)))"
    using False by (simp add: reorder_text_blocks_def Let_def keys)
  also have "\<dots> = concat (map (\<lambda>p. reorder_page h (filter (\<lambda>b. ?pg b = p) blocks))
                      (sorted_list_of_set (?pg ` set blocks)))"
    by (rule arg_cong [where f = concat], rule map_cong) (simp_all add: body)
  finally show ?thesis .
qed

lemma sorted_concat_pages:
  assumes "sorted ps" "\<forall>p\<in>set ps. \<forall>b\<in>set (f p). pg b = p"
  shows "sorted (map pg (concat (map f ps)))"
  using assms
proof (induction ps)
  case Nil
  then show ?case by simp
next
  case (Cons p ps)
  have tail: "sorted (map pg (concat (map f ps)))" using Cons by simp
  have "\<forall>x\<in>set (map pg (f p)). \<forall>y\<in>set (map pg (concat (map f ps))). x \<le> y"
    using Cons.prems by fastforce
  moreover have "sorted (map pg (f p))"
  proof -
    have "map pg (f p) = replicate (length (f p)) p"
      using Cons.prems(2) by (auto simp: map_replicate_const [symmetric] intro!: map_cong)
    then show ?thesis by simp
  qed
  ultimately show ?case using tail by (simp add: sorted_append)
qed

lemma filter_concat_pages:
  assumes "distinct ps" "\<forall>q\<in>set ps. \<forall>b\<in>set (f q). pg b = q"
  shows "filter (\<lambda>b. pg b = p) (concat (map f ps)) = (if p \<in> set ps then f p else [])"
  using assms
proof (induction ps)
  case Nil
  then show ?case by simp
next
  case (Cons q ps)
  have IH: "filter (\<lambda>b. pg b = p) (concat (map f ps)) = (if p \<in> set ps then f p else [])"
    using Cons by simp
  have hd: "filter (\<lambda>b. pg b = p) (f q) = (if p = q then f q else [])"
    using Cons.prems(2) by (auto simp: filter_empty_conv filter_id_conv)
  show ?case using Cons.prems(1) by (auto simp: IH hd)
qed

lemma page_of_reorder_page:
  "\<forall>b\<in>set (reorder_page h (filter (\<lambda>b. page_num (h b) = p) blocks)). page_num (h b) = p"
  using set_reorder_page [of h "filter (\<lambda>b. page_num (h b) = p) blocks"] by auto

lemma page_of_output:
  "filter (\<lambda>b. page_num (h b) = p) (reorder_text_blocks h blocks)
     = reorder_page h (filter (\<lambda>b. page_num (h b) = p) blocks)"
proof -
  let ?ps = "sorted_list_of_set ((\<lambda>b. page_num (h b)) ` set blocks)"
  have d: "distinct ?ps" by simp
  have own: "\<forall>q\<in>set ?ps. \<forall>b\<in>set (reorder_page h (filter (\<lambda>b. page_num (h b) = q) blocks)).
               page_num (h b) = q"
    using page_of_reorder_page by blast
  have "filter (\<lambda>b. page_num (h b) = p) (reorder_text_blocks h blocks)
      = (if p \<in> set ?ps then reorder_page h (filter (\<lambda>b. page_num (h b) = p) blocks) else [])"
    unfolding reorder_text_blocks_pages
    by (rule filter_concat_pages [OF d own])
  moreover have "reorder_page h (filter (\<lambda>b. page_num (h b) = p) blocks) = []" if "p \<notin> set ?ps"
  proof -
    from that have "filter (\<lambda>b. page_num (h b) = p) blocks = []"
      by (auto simp: filter_empty_conv)
    then show ?thesis by (simp add: reorder_page_def)
  qed
  ultimately show ?thesis by auto
qed

lemma pages_in_order:
  "sorted (map (\<lambda>b. page_num (h b)) (reorder_text_blocks h blocks))"
proof -
  let ?ps = "sorted_list_of_set ((\<lambda>b. page_num (h b)) ` set blocks)"
  have s: "sorted ?ps" by simp
  have own: "\<forall>q\<in>set ?ps. \<forall>b\<in>set (reorder_page h (filter (\<lambda>b. page_num (h b) = q) blocks)).
               page_num (h b) = q"
    using page_of_reorder_page by blast
  show ?thesis
    unfolding reorder_text_blocks_pages
    by (rule sorted_concat_pages [OF s own])
qed

lemma filter_sort_key_empty:
  "filter P (sort_key k xs) = [] \<longleftrightarrow> filter P xs = []"
  by (simp add: filter_empty_conv)

lemma distinct_map_sort_key:
  "distinct (map f (filter P (sort_key k xs))) \<longleftrightarrow> distinct (map f (filter P xs))"
proof -
  have "mset (map f (filter P (sort_key k xs))) = mset (map f (filter P xs))" by simp
  then show ?thesis by (rule mset_eq_imp_distinct_iff)
qed

lemma reorder_page_two_columns:
  assumes "filter (\<lambda>b. column (h b) = 0) bs \<noteq> []" "filter (\<lambda>b. column (h b) = 1) bs \<noteq> []"
  shows "reorder_page h bs =
           spec_interleave h (filter (\<lambda>b. column (h b) = 0) (sort_key (\<lambda>b. bbox1 (h b)) bs))
                             (filter (\<lambda>b. column (h b) = 1) (sort_key (\<lambda>b. bbox1 (h b)) bs))"
  using assms by (simp add: reorder_page_def Let_def filter_sort_key_empty interleave_columns_spec)

lemma reorder_page_one_column:
  assumes "filter (\<lambda>b. column (h b) = 0) bs = [] \<or> filter (\<lambda>b. column (h b) = 1) bs = []"
  shows "reorder_page h bs = sort_key (\<lambda>b. bbox1 (h b)) bs"
  using assms by (auto simp: reorder_page_def Let_def filter_sort_key_empty)

lemma mset_concat_map_append:
  "mset (concat (map (\<lambda>y. f y @ g y) ys)) = mset (concat (map f ys)) + mset (concat (map g ys))"
  by (induction ys) simp_all

lemma mset_concat_insert_row:
  assumes "distinct ys" "G a = []"
  shows "mset (concat (map (\<lambda>y. if y = a then [b] else G y) ys))
           = (if a \<in> set ys then {#b#} else {#}) + mset (concat (map G ys))"
  using assms(1)
proof (induction ys)
  case Nil
  then show ?case by simp
next
  case (Cons y ys)
  then show ?case using assms(2) by auto
qed

lemma spec_last_at_Cons:
  "spec_last_at h y (b # bs) =
     (if filter (\<lambda>b'. bbox1 (h b') = y) bs \<noteq> [] then spec_last_at h y bs
      else if bbox1 (h b) = y then [b] else [])"
  by (simp add: spec_last_at_def)

lemma mset_rows_survivors:
  assumes "distinct ys" "(\<lambda>b. bbox1 (h b)) ` set bs \<subseteq> set ys"
  shows "mset (concat (map (\<lambda>y. spec_last_at h y bs) ys)) = mset (survivors h bs)"
  using assms(2)
proof (induction bs)
  case Nil
  then show ?case by (simp add: spec_last_at_def)
next
  case (Cons b bs)
  let ?k = "\<lambda>b. bbox1 (h b)"
  have IH: "mset (concat (map (\<lambda>y. spec_last_at h y bs) ys)) = mset (survivors h bs)"
    using Cons by simp
  show ?case
  proof (cases "?k b \<in> ?k ` set bs")
    case True
    have "spec_last_at h y (b # bs) = spec_last_at h y bs" for y
    proof (cases "y = ?k b")
      case eq: True
      from \<open>?k b \<in> ?k ` set bs\<close> have "filter (\<lambda>b'. ?k b' = y) bs \<noteq> []"
        by (auto simp: filter_empty_conv eq)
      then show ?thesis by (simp add: spec_last_at_Cons)
    next
      case False
      then show ?thesis by (auto simp: spec_last_at_Cons spec_last_at_def)
    qed
    then show ?thesis using True IH by simp
  next
    case False
    have none: "filter (\<lambda>b'. ?k b' = ?k b) bs = []"
    proof (rule ccontr)
      assume "filter (\<lambda>b'. ?k b' = ?k b) bs \<noteq> []"
      then obtain x where "x \<in> set bs" "?k x = ?k b" by (auto simp: filter_empty_conv)
      then have "?k b \<in> ?k ` set bs" by (metis imageI)
      with False show False by simp
    qed
    then have G: "spec_last_at h (?k b) bs = []" by (simp add: spec_last_at_def)
    have row: "spec_last_at h y (b # bs) = (if y = ?k b then [b] else spec_last_at h y bs)" for y
      using none by (auto simp: spec_last_at_Cons spec_last_at_def)
    have mem: "?k b \<in> set ys" using Cons.prems by simp
    have "mset (concat (map (\<lambda>y. spec_last_at h y (b # bs)) ys))
        = mset (concat (map (\<lambda>y. if y = ?k b then [b] else spec_last_at h y bs) ys))"
      by (simp add: row)
    also have "\<dots> = {#b#} + mset (concat (map (\<lambda>y. spec_last_at h y bs) ys))"
      using mset_concat_insert_row [of ys "\<lambda>y. spec_last_at h y bs" "?k b" b, OF assms(1) G] mem
      by simp
    finally show ?thesis using False IH by simp
  qed
qed

lemma survivors_distinct: "distinct (map (\<lambda>b. bbox1 (h b)) bs) \<Longrightarrow> survivors h bs = bs"
  by (induction bs) auto

lemma mset_interleave_columns:
  "mset (interleave_columns h left right) = mset (survivors h left) + mset (survivors h right)"
proof -
  let ?ys = "sorted_list_of_set ((\<lambda>b. bbox1 (h b)) ` (set left \<union> set right))"
  have d: "distinct ?ys" by simp
  have l: "(\<lambda>b. bbox1 (h b)) ` set left \<subseteq> set ?ys" by auto
  have r: "(\<lambda>b. bbox1 (h b)) ` set right \<subseteq> set ?ys" by auto
  show ?thesis
    by (simp add: interleave_columns_spec spec_interleave_def mset_concat_map_append
        mset_rows_survivors [OF d l] mset_rows_survivors [OF d r])
qed

lemma mset_two_sides:
  assumes "\<forall>b\<in>set bs. column (h b) = 0 \<or> column (h b) = 1"
  shows "mset (filter (\<lambda>b. column (h b) = 0) bs) + mset (filter (\<lambda>b. column (h b) = 1) bs) = mset bs"
  using assms by (induction bs) auto

text \<open>
  Claim C1. For a page with at least one left and at least one right fragment, the
  fragments of that page in the output of \<^verbatim>\<open>reorder_text_blocks\<close> are: for each distinct
  top edge \<open>y0\<close> of the page's left and right fragments, in ascending order, the last left
  fragment (in the order sorted by \<open>y0\<close>) with that top edge if there is one, then the last
  right fragment with that top edge if there is one.
\<close>

theorem two_column_page_interleaved:
  assumes "side h 0 (page_fragments h p blocks) \<noteq> []"
    and "side h 1 (page_fragments h p blocks) \<noteq> []"
  shows "page_fragments h p (reorder_text_blocks h blocks) =
           spec_interleave h (side h 0 (y_sorted h (page_fragments h p blocks)))
                             (side h 1 (y_sorted h (page_fragments h p blocks)))"
  using assms
  by (simp add: page_fragments_def side_def y_sorted_def page_of_output reorder_page_two_columns)

theorem two_column_page_interleaved_witness:
  "side mixed_doc 0 (page_fragments mixed_doc 1 [0, 1, 2, 3, 4, 5]) = [0, 3, 4]
   \<and> side mixed_doc 1 (page_fragments mixed_doc 1 [0, 1, 2, 3, 4, 5]) = [1]
   \<and> page_fragments mixed_doc 1 (reorder_text_blocks mixed_doc [0, 1, 2, 3, 4, 5]) = [3, 1, 4]"
proof -
  have l: "side mixed_doc 0 (page_fragments mixed_doc 1 [0, 1, 2, 3, 4, 5]) = [0, 3, 4]"
    by code_simp
  have r: "side mixed_doc 1 (page_fragments mixed_doc 1 [0, 1, 2, 3, 4, 5]) = [1]"
    by code_simp
  have a: "side mixed_doc 0 (page_fragments mixed_doc 1 [0, 1, 2, 3, 4, 5]) \<noteq> []"
    by (simp only: l) simp
  have b: "side mixed_doc 1 (page_fragments mixed_doc 1 [0, 1, 2, 3, 4, 5]) \<noteq> []"
    by (simp only: r) simp
  have e: "spec_interleave mixed_doc
             (side mixed_doc 0 (y_sorted mixed_doc (page_fragments mixed_doc 1 [0, 1, 2, 3, 4, 5])))
             (side mixed_doc 1 (y_sorted mixed_doc (page_fragments mixed_doc 1 [0, 1, 2, 3, 4, 5])))
           = [3, 1, 4]"
    by code_simp
  have "page_fragments mixed_doc 1 (reorder_text_blocks mixed_doc [0, 1, 2, 3, 4, 5]) = [3, 1, 4]"
    using two_column_page_interleaved [OF a b] by (simp only: e)
  then show ?thesis using l r by (intro conjI)
qed

text \<open>
  Claim C5. The page numbers along the output of \<^verbatim>\<open>reorder_text_blocks\<close> are ascending,
  so no fragment of a later page precedes a fragment of an earlier one; the output is the
  concatenation, over the page numbers in ascending order, of the sequence emitted for the
  fragments of that page.
\<close>

theorem pages_ascending:
  "sorted (map (\<lambda>b. page_num (h b)) (reorder_text_blocks h blocks))
   \<and> reorder_text_blocks h blocks =
       concat (map (\<lambda>p. reorder_page h (page_fragments h p blocks))
                   (sorted_list_of_set ((\<lambda>b. page_num (h b)) ` set blocks)))"
  using pages_in_order [of h blocks] reorder_text_blocks_pages [of h blocks]
  by (simp add: page_fragments_def)

text \<open>
  Two left fragments with the same top edge 50 on one page: both are emitted, and the
  sequence of top edges 50, 50 is not strictly ascending.
\<close>

theorem equal_tops_counterexample:
  "side tie_page 1 (page_fragments tie_page 0 [0, 1]) = []
   \<and> column (tie_page 0) = 0 \<and> column (tie_page 1) = 0
   \<and> map (\<lambda>b. bbox1 (tie_page b)) (reorder_text_blocks tie_page [0, 1]) = [50, 50]
   \<and> \<not> sorted_wrt (<) (map (\<lambda>b. bbox1 (tie_page b)) (reorder_text_blocks tie_page [0, 1]))"
  by code_simp

text \<open>
  Claim C6, amended. For a page without left fragments or without right fragments (in
  particular a page whose fragments are all in one column, or an empty page), the fragments
  of that page in the output are the page's fragments in the stable order by top edge:
  ascending \<open>y0\<close>, fragments with the same \<open>y0\<close> in their input order, none changed or
  dropped. The order is strictly ascending when the top edges of the page are pairwise
  distinct.
\<close>

theorem single_column_page_sorted:
  assumes "side h 0 (page_fragments h p blocks) = [] \<or> side h 1 (page_fragments h p blocks) = []"
  shows "page_fragments h p (reorder_text_blocks h blocks) = y_sorted h (page_fragments h p blocks)
       \<and> sorted (map (\<lambda>b. bbox1 (h b)) (page_fragments h p (reorder_text_blocks h blocks)))
       \<and> (distinct (map (\<lambda>b. bbox1 (h b)) (page_fragments h p blocks))
            \<longrightarrow> sorted_wrt (<) (map (\<lambda>b. bbox1 (h b)) (page_fragments h p (reorder_text_blocks h blocks))))"
proof -
  let ?pf = "filter (\<lambda>b. page_num (h b) = p) blocks"
  let ?k = "\<lambda>b. bbox1 (h b)"
  have out: "filter (\<lambda>b. page_num (h b) = p) (reorder_text_blocks h blocks) = sort_key ?k ?pf"
    using assms
    by (simp add: page_fragments_def side_def page_of_output reorder_page_one_column)
  have s: "sorted (map ?k (sort_key ?k ?pf))" by simp
  have "distinct (map ?k (sort_key ?k ?pf))" if "distinct (map ?k ?pf)"
    using that distinct_map_sort_key [of ?k "\<lambda>b. True" ?k ?pf] by simp
  then have "sorted_wrt (<) (map ?k (sort_key ?k ?pf))" if "distinct (map ?k ?pf)"
    using that s by (simp add: strict_sorted_iff)
  then show ?thesis using s by (simp add: page_fragments_def y_sorted_def out)
qed

theorem single_column_page_sorted_witness:
  "side mixed_doc 1 (page_fragments mixed_doc 0 [0, 1, 2, 3, 4, 5]) = []
   \<and> page_fragments mixed_doc 0 (reorder_text_blocks mixed_doc [0, 1, 2, 3, 4, 5]) = [5, 2]
   \<and> map (\<lambda>b. bbox1 (mixed_doc b)) [5, 2] = [1, 5]"
proof -
  have r: "side mixed_doc 1 (page_fragments mixed_doc 0 [0, 1, 2, 3, 4, 5]) = []"
    by code_simp
  have e: "y_sorted mixed_doc (page_fragments mixed_doc 0 [0, 1, 2, 3, 4, 5]) = [5, 2]"
    by code_simp
  have y: "map (\<lambda>b. bbox1 (mixed_doc b)) [5, 2] = [1, 5]"
    by code_simp
  have "page_fragments mixed_doc 0 (reorder_text_blocks mixed_doc [0, 1, 2, 3, 4, 5]) = [5, 2]"
    using single_column_page_sorted [of mixed_doc 0 "[0, 1, 2, 3, 4, 5]", OF disjI2, OF r]
    by (simp only: e)
  then show ?thesis using r y by (intro conjI)
qed

text \<open>
  Claim C9. The output of the merge \<^verbatim>\<open>_interleave_columns\<close> holds, as a multiset, exactly
  the left and the right fragments that are the last of their side with their top edge: a
  fragment followed on its side by another with the same \<open>y0\<close> is omitted. Hence, when the
  top edges are pairwise distinct within the left list and within the right list, the
  output is a permutation of the left and right fragments together; and on such a page
  whose fragments are all in column 0 or 1 the emitted sequence is a permutation of the
  page's fragments.
\<close>

theorem interleave_keeps_last_per_row:
  "mset (interleave_columns h left right) = mset (survivors h left) + mset (survivors h right)
   \<and> (distinct (map (\<lambda>b. bbox1 (h b)) left) \<and> distinct (map (\<lambda>b. bbox1 (h b)) right)
        \<longrightarrow> mset (interleave_columns h left right) = mset left + mset right)
   \<and> ((\<forall>b\<in>set blocks. column (h b) = 0 \<or> column (h b) = 1)
        \<and> distinct (map (\<lambda>b. bbox1 (h b)) (side h 0 blocks))
        \<and> distinct (map (\<lambda>b. bbox1 (h b)) (side h 1 blocks))
        \<longrightarrow> mset (reorder_page h blocks) = mset blocks)"
proof (intro conjI impI)
  show "mset (interleave_columns h left right) = mset (survivors h left) + mset (survivors h right)"
    by (rule mset_interleave_columns)
next
  assume "distinct (map (\<lambda>b. bbox1 (h b)) left) \<and> distinct (map (\<lambda>b. bbox1 (h b)) right)"
  then show "mset (interleave_columns h left right) = mset left + mset right"
    by (simp add: mset_interleave_columns survivors_distinct)
next
  let ?k = "\<lambda>b. bbox1 (h b)"
  let ?s = "sort_key ?k blocks"
  assume a: "(\<forall>b\<in>set blocks. column (h b) = 0 \<or> column (h b) = 1)
        \<and> distinct (map ?k (side h 0 blocks)) \<and> distinct (map ?k (side h 1 blocks))"
  have dl: "distinct (map ?k (filter (\<lambda>b. column (h b) = 0) ?s))"
    using a by (simp add: distinct_map_sort_key side_def)
  have dr: "distinct (map ?k (filter (\<lambda>b. column (h b) = 1) ?s))"
    using a by (simp add: distinct_map_sort_key side_def)
  have cols: "\<forall>b\<in>set ?s. column (h b) = 0 \<or> column (h b) = 1" using a by simp
  have "mset (interleave_columns h (filter (\<lambda>b. column (h b) = 0) ?s) (filter (\<lambda>b. column (h b) = 1) ?s))
      = mset (filter (\<lambda>b. column (h b) = 0) ?s) + mset (filter (\<lambda>b. column (h b) = 1) ?s)"
    by (simp only: mset_interleave_columns survivors_distinct [OF dl] survivors_distinct [OF dr])
  also have "\<dots> = mset ?s" by (rule mset_two_sides [OF cols])
  finally have "mset (interleave_columns h (filter (\<lambda>b. column (h b) = 0) ?s) (filter (\<lambda>b. column (h b) = 1) ?s))
      = mset blocks" by simp
  then show "mset (reorder_page h blocks) = mset blocks"
    by (simp add: reorder_page_def Let_def)
qed

theorem interleave_keeps_last_per_row_witness:
  "interleave_columns mixed_doc [3, 0] [1] = [3, 1, 0]
   \<and> mset (interleave_columns mixed_doc [3, 0] [1]) = mset [3, 0] + mset [1]
   \<and> interleave_columns mixed_doc [3, 0, 4] [1] = [3, 1, 4]
   \<and> survivors mixed_doc [3, 0, 4] = [3, 4]
   \<and> mset (reorder_page mixed_doc [0, 1, 3]) = mset [0, 1, 3]"
proof -
  have e1: "interleave_columns mixed_doc [3, 0] [1] = [3, 1, 0]" by code_simp
  have e2: "interleave_columns mixed_doc [3, 0, 4] [1] = [3, 1, 4]" by code_simp
  have e3: "survivors mixed_doc [3, 0, 4] = [3, 4]" by code_simp
  have d: "distinct (map (\<lambda>b. bbox1 (mixed_doc b)) [3, 0])
         \<and> distinct (map (\<lambda>b. bbox1 (mixed_doc b)) [1])" by code_simp
  have c: "(\<forall>b\<in>set [0, 1, 3]. column (mixed_doc b) = 0 \<or> column (mixed_doc b) = 1)
        \<and> distinct (map (\<lambda>b. bbox1 (mixed_doc b)) (side mixed_doc 0 [0, 1, 3]))
        \<and> distinct (map (\<lambda>b. bbox1 (mixed_doc b)) (side mixed_doc 1 [0, 1, 3]))" by code_simp
  note t = interleave_keeps_last_per_row [of mixed_doc "[3, 0]" "[1]" "[0, 1, 3]"]
  have m1: "mset (interleave_columns mixed_doc [3, 0] [1]) = mset [3, 0] + mset [1]"
    using t d by blast
  have m2: "mset (reorder_page mixed_doc [0, 1, 3]) = mset [0, 1, 3]"
    using t c by blast
  show ?thesis by (intro conjI e1 m1 e2 e3 m2)
qed

section \<open>Properties of the text normaliser\<close>

text \<open>
  On the input of scenario D the normaliser does not return \<^verbatim>\<open>Real content here\<close> alone:
  the line \<^verbatim>\<open>Page\<close> has 4 characters and is not skipped.
\<close>

theorem scenario_D_counterexample:
  "clean_extracted_text (''Page'' @ [NL, NL, NL] @ ''5'' @ [NL, NL] @ ''Real content here'')
     \<noteq> ''Real content here''"
  by code_simp

text \<open>
  Claim C7, amended. The normaliser maps \<^verbatim>\<open>"Page\n\n\n5\n\nReal content here"\<close> to
  \<^verbatim>\<open>"Page\nReal content here"\<close>: the empty lines and the numeric line \<^verbatim>\<open>5\<close> are
  dropped, and \<^verbatim>\<open>Page\<close>, which is not shorter than 3 characters, is kept.
\<close>

theorem scenario_D:
  "clean_extracted_text (''Page'' @ [NL, NL, NL] @ ''5'' @ [NL, NL] @ ''Real content here'')
     = ''Page'' @ [NL] @ ''Real content here''"
  by code_simp

text \<open>
  What is left of the section shows that the normaliser returns a text it maps to itself.
\<close>

lemma isspace_NL [simp]: "isspace NL"
  by (simp add: isspace_def)

lemma isspace_SP [simp]: "isspace (CHR '' '')"
  by (simp add: isspace_def)

lemma isspace_TAB [simp]: "isspace TAB"
  by (simp add: isspace_def)

lemma blank_isspace: "blank c \<Longrightarrow> isspace c"
  by (auto simp: blank_def)

lemma blank_simps [simp]: "blank (CHR '' '')" "blank TAB" "\<not> blank NL"
  by (simp_all add: blank_def)

lemma rmatch_star_only: "rmatch [Star p] s = Some (dropWhile p s)"
  by (induction s) simp_all

lemma blank_lines_unchanged:
  "newlines_lead_text s \<Longrightarrow>
   re_sub (\<lambda>c. c = NL) [Star isspace, One (\<lambda>c. c = NL), Star isspace, One (\<lambda>c. c = NL)] repl s = s"
proof (induction s)
  case Nil
  then show ?case by simp
next
  case (Cons c cs)
  then have IH: "re_sub (\<lambda>c. c = NL) [Star isspace, One (\<lambda>c. c = NL), Star isspace, One (\<lambda>c. c = NL)] repl cs = cs"
    by simp
  show ?case
  proof (cases "c = NL")
    case True
    with Cons.prems obtain d ds where cs: "cs = d # ds" and d: "\<not> isspace d"
      by (cases cs) auto
    from d have "d \<noteq> NL" by auto
    then have "rmatch [Star isspace, One (\<lambda>c. c = NL), Star isspace, One (\<lambda>c. c = NL)] cs = None"
      using d by (simp add: cs)
    then show ?thesis using IH by simp
  next
    case False
    then show ?thesis using IH by simp
  qed
qed

lemma newline_space_unchanged:
  "newlines_lead_text s \<Longrightarrow> re_sub (\<lambda>c. c = NL) [One (\<lambda>c. c = CHR '' '')] repl s = s"
proof (induction s)
  case Nil
  then show ?case by simp
next
  case (Cons c cs)
  then have IH: "re_sub (\<lambda>c. c = NL) [One (\<lambda>c. c = CHR '' '')] repl cs = cs" by simp
  show ?case
  proof (cases "c = NL")
    case True
    with Cons.prems obtain d ds where cs: "cs = d # ds" and d: "\<not> isspace d"
      by (cases cs) auto
    from d have "d \<noteq> CHR '' ''" by auto
    then have "rmatch [One (\<lambda>c. c = CHR '' '')] cs = None" by (simp add: cs)
    then show ?thesis using IH by simp
  next
    case False
    then show ?thesis using IH by simp
  qed
qed

lemma blanks_unchanged: "tidy s \<Longrightarrow> re_sub blank [Star blank] '' '' s = s"
proof (induction s)
  case Nil
  then show ?case by simp
next
  case (Cons c cs)
  then have IH: "re_sub blank [Star blank] '' '' cs = cs" by simp
  show ?case
  proof (cases "blank c")
    case True
    with Cons.prems have c: "c = CHR '' ''" by (auto simp: blank_def)
    from Cons.prems c have "cs = [] \<or> \<not> blank (hd cs)" by auto
    then have "dropWhile blank cs = cs" by (cases cs) auto
    then show ?thesis using True IH c by (simp add: rmatch_star_only)
  next
    case False
    then show ?thesis using IH by simp
  qed
qed

lemma split_on_shape: "\<exists>ls. split_on sep s = takeWhile (\<lambda>c. c \<noteq> sep) s # ls"
  by (induction s) auto

lemma split_on_no_sep: "l \<in> set (split_on sep s) \<Longrightarrow> sep \<notin> set l"
proof (induction s arbitrary: l)
  case Nil
  then show ?case by simp
next
  case (Cons c cs)
  obtain m ms where sp: "split_on sep cs = m # ms" using split_on_shape [of sep cs] by blast
  show ?case
  proof (cases "c = sep")
    case True
    then show ?thesis using Cons by auto
  next
    case False
    then have "l = c # m \<or> l \<in> set ms" using Cons.prems sp by simp
    moreover have "sep \<notin> set m" using Cons.IH [of m] sp by simp
    moreover have "l \<in> set ms \<Longrightarrow> sep \<notin> set l" using Cons.IH [of l] sp by simp
    ultimately show ?thesis using False by auto
  qed
qed

lemma split_on_line: "sep \<notin> set l \<Longrightarrow> split_on sep l = [l]"
  by (induction l) auto

lemma split_on_append:
  "sep \<notin> set l \<Longrightarrow> split_on sep (l @ sep # r) = l # split_on sep r"
  by (induction l) auto

lemma split_on_join:
  "ls \<noteq> [] \<Longrightarrow> \<forall>l\<in>set ls. sep \<notin> set l \<Longrightarrow> split_on sep (join [sep] ls) = ls"
proof (induction "[sep]" ls rule: join.induct)
  case 1
  then show ?case by simp
next
  case (2 l)
  then show ?case by (simp add: split_on_line)
next
  case (3 l m ls)
  then show ?case by (simp add: split_on_append)
qed

lemma strip_no_margin:
  assumes "l \<noteq> []" "\<not> isspace (hd l)" "\<not> isspace (last l)"
  shows "strip l = l"
proof -
  have a: "dropWhile isspace l = l" using assms(1,2) by (cases l) auto
  have "rev l \<noteq> []" "\<not> isspace (hd (rev l))" using assms(1,3) by (simp_all add: hd_rev)
  then have b: "dropWhile isspace (rev l) = rev l" by (cases "rev l") auto
  show ?thesis by (simp add: strip_def a b)
qed

lemma strip_margins:
  assumes "strip l \<noteq> []"
  shows "\<not> isspace (hd (strip l)) \<and> \<not> isspace (last (strip l))"
proof -
  let ?m = "dropWhile isspace l"
  let ?u = "dropWhile isspace (rev ?m)"
  have s: "strip l = rev ?u" by (simp add: strip_def)
  have u: "?u \<noteq> []" using assms s by simp
  then have hu: "\<not> isspace (hd ?u)" by (rule hd_dropWhile)
  have m: "?m \<noteq> []"
  proof
    assume e: "?m = []"
    have "?u = []" unfolding e by simp
    with u show False by simp
  qed
  then have hm: "\<not> isspace (hd ?m)" by (rule hd_dropWhile)
  have "rev ?m = takeWhile isspace (rev ?m) @ ?u" by simp
  then have "last (rev ?m) = last ?u" using u by (metis last_appendR)
  then have "last ?u = hd ?m" using m by (simp add: last_rev)
  then show ?thesis using hu hm u by (simp add: s hd_rev last_rev)
qed

lemma set_strip: "set (strip l) \<subseteq> set l"
proof -
  have "set (strip l) = set (dropWhile isspace (rev (dropWhile isspace l)))"
    by (simp add: strip_def)
  also have "\<dots> \<subseteq> set (rev (dropWhile isspace l))" by (auto dest: set_dropWhileD)
  also have "\<dots> \<subseteq> set l" by (auto dest: set_dropWhileD)
  finally show ?thesis .
qed

lemma tidy_suffix: "tidy (a @ b) \<Longrightarrow> tidy b"
  by (induction a) auto

lemma tidy_prefix: "tidy (a @ b) \<Longrightarrow> tidy a"
proof (induction a)
  case Nil
  then show ?case by simp
next
  case (Cons c a)
  then show ?case by (cases a) auto
qed

lemma tidy_append:
  "tidy a \<Longrightarrow> tidy b \<Longrightarrow> b = [] \<or> \<not> blank (hd b) \<Longrightarrow> tidy (a @ b)"
proof (induction a)
  case Nil
  then show ?case by simp
next
  case (Cons c a)
  then show ?case by (cases a) auto
qed

lemma tidy_strip: "tidy l \<Longrightarrow> tidy (strip l)"
proof -
  assume t: "tidy l"
  let ?m = "dropWhile isspace l"
  have "l = takeWhile isspace l @ ?m" by simp
  then have tm: "tidy ?m" using t by (metis tidy_suffix)
  have "rev ?m = takeWhile isspace (rev ?m) @ dropWhile isspace (rev ?m)" by simp
  then have "?m = rev (dropWhile isspace (rev ?m)) @ rev (takeWhile isspace (rev ?m))"
    by (metis rev_append rev_rev_ident)
  then have "tidy (rev (dropWhile isspace (rev ?m)))" using tm by (metis tidy_prefix)
  then show ?thesis by (simp add: strip_def)
qed

lemma tidy_split_on: "tidy s \<Longrightarrow> l \<in> set (split_on sep s) \<Longrightarrow> tidy l"
proof (induction s arbitrary: l)
  case Nil
  then show ?case by simp
next
  case (Cons c cs)
  obtain ms where sp: "split_on sep cs = takeWhile (\<lambda>c. c \<noteq> sep) cs # ms"
    using split_on_shape [of sep cs] by blast
  let ?m = "takeWhile (\<lambda>c. c \<noteq> sep) cs"
  have tcs: "tidy cs" using Cons.prems(1) by simp
  have tm: "tidy ?m" using Cons.IH [OF tcs, of ?m] sp by simp
  show ?case
  proof (cases "c = sep")
    case True
    then show ?thesis using Cons.prems Cons.IH [OF tcs] by auto
  next
    case False
    then have "l = c # ?m \<or> l \<in> set ms" using Cons.prems(2) sp by simp
    moreover have "tidy (c # ?m)"
    proof -
      have "?m \<noteq> [] \<Longrightarrow> hd ?m = hd cs" by (cases cs) (auto split: if_splits)
      moreover have "?m \<noteq> [] \<Longrightarrow> cs \<noteq> []" by auto
      ultimately show ?thesis using Cons.prems(1) tm by auto
    qed
    moreover have "l \<in> set ms \<Longrightarrow> tidy l" using Cons.IH [OF tcs, of l] sp by simp
    ultimately show ?thesis by auto
  qed
qed

lemma collapse_blanks_head:
  "\<not> blank c \<Longrightarrow> re_sub blank [Star blank] '' '' (c # cs) = c # re_sub blank [Star blank] '' '' cs"
  by simp

lemma collapse_blanks_tidy_aux:
  "p = blank \<Longrightarrow> as = [Star blank] \<Longrightarrow> repl = '' '' \<Longrightarrow> tidy (re_sub p as repl s)"
proof (induction p as repl s rule: re_sub.induct)
  case (1 p as repl)
  then show ?case by simp
next
  case (2 p as repl c cs)
  show ?case
  proof (cases "blank c")
    case True
    let ?r = "dropWhile blank cs"
    have m: "rmatch as cs = Some ?r" using 2(5) by (simp add: rmatch_star_only)
    have t: "tidy (re_sub p as repl ?r)" using 2(2) [OF _ m] True 2(4,5,6) by simp
    have out: "re_sub p as repl (c # cs) = CHR '' '' # re_sub p as repl ?r"
      using True m 2(4,6) by simp
    have "re_sub p as repl ?r = [] \<or> \<not> blank (hd (re_sub p as repl ?r))"
    proof (cases ?r)
      case Nil
      show ?thesis unfolding Nil by simp
    next
      case (Cons d ds)
      have "?r \<noteq> []" unfolding Cons by simp
      then have "\<not> blank (hd ?r)" by (rule hd_dropWhile)
      then have d: "\<not> blank d" unfolding Cons by simp
      show ?thesis unfolding Cons using d 2(4,5,6) by simp
    qed
    then show ?thesis unfolding out using t by (auto simp: blank_def)
  next
    case False
    then have "tidy (re_sub p as repl cs)" using 2(3) 2(4,5,6) by simp
    moreover have "c \<noteq> TAB" "c \<noteq> CHR '' ''" using False by (auto simp: blank_def)
    ultimately show ?thesis using False 2(4) by simp
  qed
qed

lemma collapse_blanks_tidy: "tidy (re_sub blank [Star blank] '' '' s)"
  by (rule collapse_blanks_tidy_aux) simp_all

lemma drop_indent_head:
  "s \<noteq> [] \<Longrightarrow> re_sub (\<lambda>c. c = NL) [One (\<lambda>c. c = CHR '' '')] [NL] s \<noteq> []
     \<and> hd (re_sub (\<lambda>c. c = NL) [One (\<lambda>c. c = CHR '' '')] [NL] s) = hd s"
  by (cases s) (auto split: option.splits)

lemma drop_indent_tidy_aux:
  "p = (\<lambda>c. c = NL) \<Longrightarrow> as = [One (\<lambda>c. c = CHR '' '')] \<Longrightarrow> repl = [NL] \<Longrightarrow> tidy s
     \<Longrightarrow> tidy (re_sub p as repl s)"
proof (induction p as repl s rule: re_sub.induct)
  case (1 p as repl)
  then show ?case by simp
next
  case (2 p as repl c cs)
  have tcs: "tidy cs" using 2(7) by simp
  show ?case
  proof (cases "c = NL \<and> rmatch as cs \<noteq> None")
    case True
    then obtain r where m: "rmatch as cs = Some r" by auto
    have "\<exists>d. cs = d # r" using m 2(5) by (cases cs) (auto split: if_splits)
    then have "tidy r" using tcs by auto
    then have "tidy (re_sub p as repl r)" using 2(2) [OF _ m] True 2(4,5,6) by simp
    then show ?thesis using True m 2(4,6) by simp
  next
    case False
    have rec: "tidy (re_sub p as repl cs)"
    proof (cases "p c")
      case True
      then have "rmatch as cs = None" using False 2(4) by simp
      then show ?thesis using 2(1) [OF True] 2(4,5,6) tcs by simp
    next
      case nope: False
      then show ?thesis using 2(3) 2(4,5,6) tcs by simp
    qed
    have out: "re_sub p as repl (c # cs) = c # re_sub p as repl cs"
      using False 2(4) by (auto split: option.splits)
    have junction: "\<not> (c = CHR '' '' \<and> re_sub p as repl cs \<noteq> [] \<and> blank (hd (re_sub p as repl cs)))"
    proof (cases "cs = []")
      case True
      then show ?thesis by simp
    next
      case ne: False
      then have "hd (re_sub p as repl cs) = hd cs"
        using drop_indent_head [OF ne] 2(4,5,6) by simp
      then show ?thesis using 2(7) ne by auto
    qed
    have "c \<noteq> TAB" using 2(7) by simp
    then show ?thesis unfolding out using rec junction by simp
  qed
qed

lemma drop_indent_tidy:
  "tidy s \<Longrightarrow> tidy (re_sub (\<lambda>c. c = NL) [One (\<lambda>c. c = CHR '' '')] [NL] s)"
  by (rule drop_indent_tidy_aux) simp_all

lemma join_head:
  "ls \<noteq> [] \<Longrightarrow> \<forall>l\<in>set ls. l \<noteq> [] \<Longrightarrow> join sep ls \<noteq> [] \<and> hd (join sep ls) = hd (hd ls)"
  by (induction sep ls rule: join.induct) auto

lemma newlines_lead_text_append:
  "NL \<notin> set l \<Longrightarrow> newlines_lead_text (l @ r) = newlines_lead_text r"
  by (induction l) auto

lemma newlines_lead_text_join:
  "\<forall>l\<in>set ls. l \<noteq> [] \<and> \<not> isspace (hd l) \<and> NL \<notin> set l \<Longrightarrow> newlines_lead_text (join [NL] ls)"
proof (induction "[NL]" ls rule: join.induct)
  case 1
  then show ?case by simp
next
  case (2 l)
  then show ?case using newlines_lead_text_append [of l "[]"] by simp
next
  case (3 l m ls)
  have rest: "newlines_lead_text (join [NL] (m # ls))" using 3 by simp
  have "join [NL] (m # ls) \<noteq> [] \<and> hd (join [NL] (m # ls)) = hd (hd (m # ls))"
    by (rule join_head) (use 3(2) in auto)
  then have "newlines_lead_text (NL # join [NL] (m # ls))" using rest 3(2) by simp
  then show ?case using 3(2) by (simp add: newlines_lead_text_append)
qed

lemma tidy_join: "\<forall>l\<in>set ls. tidy l \<Longrightarrow> tidy (join [NL] ls)"
proof (induction "[NL]" ls rule: join.induct)
  case 1
  then show ?case by simp
next
  case (2 l)
  then show ?case by simp
next
  case (3 l m ls)
  have a: "tidy l" using 3(2) by simp
  have b: "tidy (NL # join [NL] (m # ls))" using 3 by simp
  have "tidy (l @ NL # join [NL] (m # ls))" by (rule tidy_append [OF a b]) simp
  then show ?case by simp
qed

lemma keep_line_nonempty: "keep_line l \<Longrightarrow> l \<noteq> []"
  by (auto simp: keep_line_def)

lemma clean_lines_fixed:
  assumes "\<forall>l\<in>set ls. clean_line l"
  shows "clean_extracted_text (join [NL] ls) = join [NL] ls"
proof (cases "ls = []")
  case True
  then show ?thesis by (simp add: clean_extracted_text_def)
next
  case False
  let ?t = "join [NL] ls"
  have ne: "\<forall>l\<in>set ls. l \<noteq> []" using assms by (auto simp: clean_line_def keep_line_nonempty)
  have t: "?t \<noteq> []" using join_head [OF False ne] by simp
  have lead: "newlines_lead_text ?t"
    by (rule newlines_lead_text_join) (use assms ne in \<open>auto simp: clean_line_def\<close>)
  have td: "tidy ?t" by (rule tidy_join) (use assms in \<open>auto simp: clean_line_def\<close>)
  have s1: "re_sub (\<lambda>c. c = NL) [Star isspace, One (\<lambda>c. c = NL), Star isspace, One (\<lambda>c. c = NL)]
              [NL, NL] ?t = ?t"
    by (rule blank_lines_unchanged [OF lead])
  have s2: "re_sub blank [Star blank] '' '' ?t = ?t" by (rule blanks_unchanged [OF td])
  have s3: "re_sub (\<lambda>c. c = NL) [One (\<lambda>c. c = CHR '' '')] [NL] ?t = ?t"
    by (rule newline_space_unchanged [OF lead])
  have s4: "split_on NL ?t = ls"
    by (rule split_on_join [OF False]) (use assms in \<open>auto simp: clean_line_def\<close>)
  have s5: "map strip ls = ls"
  proof -
    have "strip l = l" if "l \<in> set ls" for l
      using that assms ne by (auto simp: clean_line_def intro: strip_no_margin)
    then show ?thesis by (simp add: map_idI)
  qed
  have s6: "filter keep_line ls = ls" using assms by (auto simp: clean_line_def filter_id_conv)
  show ?thesis
    unfolding clean_extracted_text_def Let_def
    by (simp only: t if_False s1 s2 s3 s4 s5 s6)
qed

lemma clean_extracted_text_lines:
  "\<exists>ls. clean_extracted_text s = join [NL] ls \<and> (\<forall>l\<in>set ls. clean_line l)"
proof (cases "s = []")
  case True
  have "clean_extracted_text s = join [NL] [] \<and> (\<forall>l\<in>set ([] :: string list). clean_line l)"
    using True by (simp add: clean_extracted_text_def)
  then show ?thesis by blast
next
  case False
  define t1 where "t1 = re_sub (\<lambda>c. c = NL)
      [Star isspace, One (\<lambda>c. c = NL), Star isspace, One (\<lambda>c. c = NL)] [NL, NL] s"
  define t3 where "t3 = re_sub (\<lambda>c. c = NL) [One (\<lambda>c. c = CHR '' '')] [NL]
      (re_sub blank [Star blank] '' '' t1)"
  define ls where "ls = filter keep_line (map strip (split_on NL t3))"
  have out: "clean_extracted_text s = join [NL] ls"
    using False by (simp add: clean_extracted_text_def Let_def t1_def t3_def ls_def)
  have t3: "tidy t3" unfolding t3_def by (rule drop_indent_tidy [OF collapse_blanks_tidy])
  have "clean_line l" if "l \<in> set ls" for l
  proof -
    from that obtain r where r: "r \<in> set (split_on NL t3)" and l: "l = strip r" and k: "keep_line l"
      by (auto simp: ls_def)
    have ne: "strip r \<noteq> []" using k l keep_line_nonempty by simp
    have "NL \<notin> set r" using r by (rule split_on_no_sep)
    then have "NL \<notin> set l" using set_strip [of r] l by auto
    moreover have "tidy l" using tidy_strip [OF tidy_split_on [OF t3 r]] l by simp
    moreover have "\<not> isspace (hd l) \<and> \<not> isspace (last l)" using strip_margins [OF ne] l by simp
    ultimately show ?thesis using k by (simp add: clean_line_def)
  qed
  then show ?thesis using out by blast
qed

text \<open>
  Claim C8. The normaliser is idempotent: for every input string,
  \<^verbatim>\<open>clean_extracted_text(clean_extracted_text(s)) = clean_extracted_text(s)\<close>.
\<close>

theorem normalizer_idempotent:
  "clean_extracted_text (clean_extracted_text s) = clean_extracted_text s"
proof -
  obtain ls where "clean_extracted_text s = join [NL] ls" "\<forall>l\<in>set ls. clean_line l"
    using clean_extracted_text_lines by blast
  then show ?thesis by (simp add: clean_lines_fixed)
qed


end
